theory Spec2Isabelle
  imports Complex_Main "HOL-Library.Word"
begin

section \<open>Console output of the R binding (src/gdalcubes.cpp)\<close>

text \<open>
  The file keeps its output state in static members: \<^verbatim>\<open>r_stderr_buf::_s\<close> (text waiting
  for the R console), \<^verbatim>\<open>error_handling_r::_err_stream\<close> (formatted log lines) and
  \<^verbatim>\<open>error_handling_r::_defer\<close>. What \<^verbatim>\<open>REprintf\<close> has written is kept in the field
  \<open>console\<close>, in the order of the writes. Every function below runs under the mutex the
  source takes (\<^verbatim>\<open>_m\<close>, \<^verbatim>\<open>_m_errhandl\<close>), so a call is one atomic state
  transformer; the calling thread is an argument, compared with \<^verbatim>\<open>r_main_thread_id\<close>.
\<close>

type_synonym thread_id = nat

definition r_main_thread_id :: thread_id where
  "r_main_thread_id = 0"

record r_static =
  s_buf :: string
  console :: string
  err_stream :: string
  err_defer :: bool

text \<open>\<^verbatim>\<open>std::endl\<close> writes a line feed.\<close>

definition endl :: string where
  "endl = [CHR 0x0A]"

text \<open>
  \<^verbatim>\<open>r_stderr_buf::print(s)\<close>, lines 22-30: append to \<^verbatim>\<open>_s\<close>; when the buffer is not
  empty and the caller is the main thread, hand the whole buffer to \<^verbatim>\<open>REprintf\<close> and
  empty it.
\<close>

definition r_stderr_buf_print :: "string \<Rightarrow> thread_id \<Rightarrow> r_static \<Rightarrow> r_static" where
  "r_stderr_buf_print s me st =
     (let st1 = st\<lparr>s_buf := s_buf st @ s\<rparr>
      in if s_buf st1 \<noteq> [] \<and> r_main_thread_id = me
         then st1\<lparr>console := console st1 @ s_buf st1, s_buf := []\<rparr>
         else st1)"

text \<open>
  Modelled from the spec: the enumeration \<^verbatim>\<open>error_level\<close> is declared in a header that
  is not part of the sources; the spec names the severities error, warning, info and
  debug, and the handlers below also test \<^verbatim>\<open>ERRLVL_FATAL\<close>.
\<close>

datatype error_level = ERRLVL_FATAL | ERRLVL_ERROR | ERRLVL_WARNING | ERRLVL_INFO | ERRLVL_DEBUG

subsection \<open>Decimal output of integers\<close>

definition digit_char :: "nat \<Rightarrow> char" where
  "digit_char d = ''0123456789'' ! d"

fun to_string_nat :: "nat \<Rightarrow> string" where
  "to_string_nat n =
     (if n < 10 then [digit_char n] else to_string_nat (n div 10) @ [digit_char (n mod 10)])"

declare to_string_nat.simps [simp del]

definition to_string_int :: "int \<Rightarrow> string" where
  "to_string_int k = (if k < 0 then ''-'' @ to_string_nat (nat (- k)) else to_string_nat (nat k))"

subsection \<open>The error handlers\<close>


text \<open>
  The block \<^verbatim>\<open>if (_err_stream.rdbuf()->in_avail() > 0) { r_stderr_buf::print(_err_stream.str());
  _err_stream.str(""); }\<close> stands three times in the source (lines 194-197, 216-219,
  235-238). Nothing ever reads from the stream, so the characters available are the
  characters written since the last \<^verbatim>\<open>str("")\<close>.
\<close>

definition flush_err_stream :: "thread_id \<Rightarrow> r_static \<Rightarrow> r_static" where
  "flush_err_stream me st =
     (if err_stream st \<noteq> []
      then (r_stderr_buf_print (err_stream st) me st)\<lparr>err_stream := []\<rparr>
      else st)"


definition err_write :: "string \<Rightarrow> r_static \<Rightarrow> r_static" where
  "err_write s st = st\<lparr>err_stream := err_stream st @ s\<rparr>"

text \<open>
  \<^verbatim>\<open>error_handling_r::debug\<close>, lines 202-222. The local \<^verbatim>\<open>code\<close> is computed and never
  written, as in the source.
\<close>

definition debug :: "error_level \<Rightarrow> string \<Rightarrow> string \<Rightarrow> int \<Rightarrow> thread_id \<Rightarrow> r_static \<Rightarrow> r_static" where
  "debug lvl msg loc error_code me st =
     (let code = (if error_code \<noteq> 0 then '' ('' @ to_string_int error_code @ '')'' else '''');
          where_str = (if loc = [] then '''' else '' [in '' @ loc @ '']'');
          st1 = (if lvl = ERRLVL_ERROR \<or> lvl = ERRLVL_FATAL
                 then err_write (''[ERROR] '' @ msg @ where_str @ endl) st
                 else if lvl = ERRLVL_WARNING
                 then err_write (''[WARNING]  '' @ msg @ where_str @ endl) st
                 else if lvl = ERRLVL_INFO
                 then err_write (''[INFO] '' @ msg @ where_str @ endl) st
                 else if lvl = ERRLVL_DEBUG
                 then err_write (''[DEBUG] '' @ msg @ where_str @ endl) st
                 else st)
      in if \<not> err_defer st1 then flush_err_stream me st1 else st1)"

text \<open>\<^verbatim>\<open>error_handling_r::standard\<close>, lines 224-241: no branch for \<^verbatim>\<open>ERRLVL_DEBUG\<close>.\<close>

definition standard :: "error_level \<Rightarrow> string \<Rightarrow> string \<Rightarrow> int \<Rightarrow> thread_id \<Rightarrow> r_static \<Rightarrow> r_static" where
  "standard lvl msg loc error_code me st =
     (let code = (if error_code \<noteq> 0 then '' ('' @ to_string_int error_code @ '')'' else '''');
          st1 = (if lvl = ERRLVL_ERROR \<or> lvl = ERRLVL_FATAL
                 then err_write (''[ERROR] '' @ msg @ endl) st
                 else if lvl = ERRLVL_WARNING
                 then err_write (''[WARNING] '' @ msg @ endl) st
                 else if lvl = ERRLVL_INFO
                 then err_write (''## '' @ msg @ endl) st
                 else st)
      in if \<not> err_defer st1 then flush_err_stream me st1 else st1)"

subsection \<open>Sequences of calls\<close>

text \<open>
  A call of one of the output functions by some thread. Threads call them in some
  order, one at a time (each holds the mutex of the function), so a concurrent run is a
  list of calls with their callers.
\<close>

datatype out_call =
    Print string
  | Debug error_level string string int
  | Standard error_level string string int
  | Defer_output
  | Do_output



text \<open>The text a call brings: the printed string, or the line the handler formats.\<close>

fun call_text :: "out_call \<Rightarrow> string" where
  "call_text (Print s) = s"
| "call_text (Debug lvl msg loc error_code) =
     (let where_str = (if loc = [] then '''' else '' [in '' @ loc @ '']'')
      in case lvl of
           ERRLVL_FATAL \<Rightarrow> ''[ERROR] '' @ msg @ where_str @ endl
         | ERRLVL_ERROR \<Rightarrow> ''[ERROR] '' @ msg @ where_str @ endl
         | ERRLVL_WARNING \<Rightarrow> ''[WARNING]  '' @ msg @ where_str @ endl
         | ERRLVL_INFO \<Rightarrow> ''[INFO] '' @ msg @ where_str @ endl
         | ERRLVL_DEBUG \<Rightarrow> ''[DEBUG] '' @ msg @ where_str @ endl)"
| "call_text (Standard lvl msg loc error_code) =
     (case lvl of
        ERRLVL_FATAL \<Rightarrow> ''[ERROR] '' @ msg @ endl
      | ERRLVL_ERROR \<Rightarrow> ''[ERROR] '' @ msg @ endl
      | ERRLVL_WARNING \<Rightarrow> ''[WARNING] '' @ msg @ endl
      | ERRLVL_INFO \<Rightarrow> ''## '' @ msg @ endl
      | ERRLVL_DEBUG \<Rightarrow> '''')"
| "call_text Defer_output = ''''"
| "call_text Do_output = ''''"


text \<open>
  All the text the state holds, in the order in which the console will show it:
  what was printed, what waits in \<^verbatim>\<open>_s\<close>, what waits in \<^verbatim>\<open>_err_stream\<close>.
\<close>

definition all_text :: "r_static \<Rightarrow> string" where
  "all_text st = console st @ s_buf st @ err_stream st"


section \<open>The progress bar (struct progress_simple_R)\<close>














section \<open>Parallel chunk processing (chunk_processor_multithread_interruptible::apply)\<close>

text \<open>
  Modelled from the spec: the class \<^verbatim>\<open>cube\<close> is declared in a header that is not part of
  the sources. The spec gives \<^verbatim>\<open>chunkCount() -> uint32\<close> and \<^verbatim>\<open>readChunk(id)\<close>, which
  fails with a chunk-local error; \<^verbatim>\<open>apply\<close> compares the count with a \<^verbatim>\<open>uint32_t\<close>
  (line 102) and catches \<^verbatim>\<open>std::string\<close> and everything else (lines 111, 114).
\<close>

type_synonym chunkid_t = "32 word"

datatype thrown = Thrown_string string | Thrown_other

record 'd cube =
  count_chunks :: chunkid_t
  read_chunk :: "chunkid_t \<Rightarrow> thrown + 'd"

text \<open>
  The callback \<^verbatim>\<open>f(i, dat, mutex)\<close>: it returns or throws. Each of its invocations is
  recorded in the state (field \<open>calls\<close>) with the worker that made it.
\<close>

type_synonym 'd chunk_callback = "chunkid_t \<Rightarrow> 'd \<Rightarrow> thrown option"

text \<open>
  The variables of \<^verbatim>\<open>apply\<close> (lines 94-98, 125-126) and of its threads. The threads
  are taken to run in steps that do not overlap, each step seeing the writes of the steps
  before it; the flushes of the console buffer (lines 123, 147, 153), the sleep of the
  supervising loop and the error handler of GDAL (lines 101, 120) do not touch these
  variables and are left out. Worker \<open>it\<close>
  owns \<open>loop_i ! it\<close> (its \<^verbatim>\<open>uint32_t i\<close>) and \<open>in_try ! it\<close>, which holds while the
  worker is between the test of line 104 and the end of line 106. The lists \<open>calls\<close>,
  \<open>skipped\<close> and \<open>logged\<close> observe the run: the invocations of the callback, the
  iterations that took the \<^verbatim>\<open>else\<close> branch of line 108, and the messages handed to
  \<^verbatim>\<open>GCBS_ERROR\<close> (a macro of the library; it passes the message to the configured error
  handler with level error).
\<close>

record apply_state =
  interrupted :: bool
  finished :: "bool list"
  interrupted_bythread :: "bool list"
  loop_i :: "chunkid_t list"
  in_try :: "bool list"
  polling :: bool
  sup_i :: nat
  calls :: "(nat \<times> chunkid_t) list"
  skipped :: "(nat \<times> chunkid_t) list"
  logged :: "string list"

definition apply_init :: "16 word \<Rightarrow> apply_state" where
  "apply_init nthreads =
     \<lparr>interrupted = False,
      finished = replicate (unat nthreads) False,
      interrupted_bythread = replicate (unat nthreads) False,
      loop_i = map of_nat [0..<unat nthreads],
      in_try = replicate (unat nthreads) False,
      polling = True,
      sup_i = 0,
      calls = [],
      skipped = [],
      logged = []\<rparr>"

definition gcbs_error :: "string \<Rightarrow> apply_state \<Rightarrow> apply_state" where
  "gcbs_error msg st = st\<lparr>logged := logged st @ [msg]\<rparr>"

text \<open>The two handlers, lines 111-117.\<close>

definition catch_msg :: "thrown \<Rightarrow> chunkid_t \<Rightarrow> string" where
  "catch_msg e i =
     (case e of
        Thrown_string s \<Rightarrow> s
      | Thrown_other \<Rightarrow> ''unexpected exception while processing chunk '' @ to_string_nat (unat i))"

text \<open>Lines 105-106 inside the \<^verbatim>\<open>try\<close>: read the chunk, call the callback.\<close>

definition process_chunk ::
  "'d cube \<Rightarrow> 'd chunk_callback \<Rightarrow> nat \<Rightarrow> chunkid_t \<Rightarrow> apply_state \<Rightarrow> apply_state" where
  "process_chunk c f it i st =
     (case read_chunk c i of
        Inl e \<Rightarrow> gcbs_error (catch_msg e i) st
      | Inr dat \<Rightarrow>
          (let st1 = st\<lparr>calls := calls st @ [(it, i)]\<rparr>
           in case f i dat of
                None \<Rightarrow> st1
              | Some e \<Rightarrow> gcbs_error (catch_msg e i) st1))"

text \<open>
  One step of worker \<open>it\<close> (the thread body, lines 100-121). At the head of the loop
  it tests \<^verbatim>\<open>i < c->count_chunks()\<close>; when the test fails it sets \<^verbatim>\<open>finished[it]\<close> and
  ends. Otherwise it reads \<^verbatim>\<open>interrupted\<close>: when the flag is set it sets
  \<^verbatim>\<open>interrupted_bythread[it]\<close> and goes to the next \<^verbatim>\<open>i\<close>, else it enters the chunk. Its
  next step processes the chunk and adds \<^verbatim>\<open>_nthreads\<close> to \<^verbatim>\<open>i\<close>, in 32-bit unsigned
  arithmetic as the source does.
\<close>

definition worker_step ::
  "'d cube \<Rightarrow> 'd chunk_callback \<Rightarrow> 16 word \<Rightarrow> nat \<Rightarrow> apply_state \<Rightarrow> apply_state" where
  "worker_step c f nthreads it st =
     (if \<not> it < unat nthreads \<or> finished st ! it then st
      else let i = loop_i st ! it in
        if in_try st ! it
        then (process_chunk c f it i st)
               \<lparr>in_try := (in_try st)[it := False],
                loop_i := (loop_i st)[it := i + ucast nthreads]\<rparr>
        else if i < count_chunks c
        then (if \<not> interrupted st
              then st\<lparr>in_try := (in_try st)[it := True]\<rparr>
              else st\<lparr>interrupted_bythread := (interrupted_bythread st)[it := True],
                      skipped := skipped st @ [(it, i)],
                      loop_i := (loop_i st)[it := i + ucast nthreads]\<rparr>)
        else st\<lparr>finished := (finished st)[it := True]\<rparr>)"

definition sleep_ms :: nat where
  "sleep_ms = 100"

definition interrupt_ms :: nat where
  "interrupt_ms = 2000"

definition interrupt_every :: nat where
  "interrupt_every = interrupt_ms div sleep_ms"

text \<open>
  One iteration of the supervising loop, lines 130-149. The argument tells whether
  \<^verbatim>\<open>Rcpp::checkUserInterrupt()\<close> would throw in this iteration. The loop is left when all
  workers are seen finished, or by the \<^verbatim>\<open>break\<close> after setting \<^verbatim>\<open>interrupted\<close>.
\<close>

definition supervisor_step :: "bool \<Rightarrow> 16 word \<Rightarrow> apply_state \<Rightarrow> apply_state" where
  "supervisor_step user_interrupt nthreads st =
     (if \<not> polling st then st
      else let all_done = list_all (\<lambda>it. finished st ! it) [0..<unat nthreads] in
        if \<not> all_done
        then (if interrupt_every \<le> sup_i st \<and> sup_i st mod interrupt_every = 0 \<and> user_interrupt
              then st\<lparr>interrupted := True, polling := False\<rparr>
              else st\<lparr>sup_i := sup_i st + 1\<rparr>)
        else st\<lparr>sup_i := sup_i st + 1, polling := False\<rparr>)"

text \<open>
  The threads run concurrently. A run is a list of events: each event is one step of
  one worker or one iteration of the supervising loop, in the order in which they
  happen.
\<close>

datatype event = Worker nat | Supervisor bool

fun step :: "'d cube \<Rightarrow> 'd chunk_callback \<Rightarrow> 16 word \<Rightarrow> event \<Rightarrow> apply_state \<Rightarrow> apply_state" where
  "step c f n (Worker it) st = worker_step c f n it st"
| "step c f n (Supervisor user_interrupt) st = supervisor_step user_interrupt n st"

fun run :: "'d cube \<Rightarrow> 'd chunk_callback \<Rightarrow> 16 word \<Rightarrow> event list \<Rightarrow> apply_state \<Rightarrow> apply_state" where
  "run c f n [] st = st"
| "run c f n (ev # evs) st = run c f n evs (step c f n ev st)"

text \<open>
  \<^verbatim>\<open>apply\<close> returns (or throws) once the supervising loop is left and every worker is
  joined, lines 150-169.
\<close>

definition returned :: "16 word \<Rightarrow> apply_state \<Rightarrow> bool" where
  "returned n st = (\<not> polling st \<and> list_all (\<lambda>it. finished st ! it) [0..<unat n])"

definition any_incomplete :: "16 word \<Rightarrow> apply_state \<Rightarrow> bool" where
  "any_incomplete n st = list_ex (\<lambda>it. interrupted_bythread st ! it) [0..<unat n]"

definition interrupted_msg :: string where
  "interrupted_msg = ''computations have been interrupted by the user''"

definition apply_result :: "16 word \<Rightarrow> apply_state \<Rightarrow> string + unit" where
  "apply_result n st =
     (if interrupted st \<and> any_incomplete n st then Inl interrupted_msg else Inr ())"

definition apply_cube ::
  "'d cube \<Rightarrow> 'd chunk_callback \<Rightarrow> 16 word \<Rightarrow> event list \<Rightarrow> ((string + unit) \<times> apply_state) option" where
  "apply_cube c f n evs =
     (let st = run c f n evs (apply_init n)
      in if returned n st then Some (apply_result n st, st) else None)"

text \<open>The four vectors have one entry for each worker.\<close>

definition wf :: "16 word \<Rightarrow> apply_state \<Rightarrow> bool" where
  "wf n st =
     (length (finished st) = unat n \<and> length (interrupted_bythread st) = unat n
      \<and> length (loop_i st) = unat n \<and> length (in_try st) = unat n)"







text \<open>
  The inputs for which \<^verbatim>\<open>i += _nthreads\<close> never wraps around: at least one thread, and
  chunk count plus thread count within 32 bits.
\<close>

definition no_wrap :: "'d cube \<Rightarrow> 16 word \<Rightarrow> bool" where
  "no_wrap c n = (0 < unat n \<and> unat (count_chunks c) + unat n \<le> 2 ^ 32)"




text \<open>The state a schedule leads to from the start of \<^verbatim>\<open>apply\<close>.\<close>

definition reach :: "'d cube \<Rightarrow> 'd chunk_callback \<Rightarrow> 16 word \<Rightarrow> event list \<Rightarrow> apply_state" where
  "reach c f n evs = run c f n evs (apply_init n)"

text \<open>A cube of \<open>k\<close> chunks that all read, and a callback that returns.\<close>

definition cube_ok :: "chunkid_t \<Rightarrow> unit cube" where
  "cube_ok k = \<lparr>count_chunks = k, read_chunk = (\<lambda>i. Inr ())\<rparr>"

definition f_ok :: "unit chunk_callback" where
  "f_ok = (\<lambda>i d. None)"

text \<open>A callback that throws a \<^verbatim>\<open>std::string\<close> on every chunk.\<close>

definition f_boom :: "unit chunk_callback" where
  "f_boom = (\<lambda>i d. Some (Thrown_string ''boom''))"

text \<open>A callback that throws something else on chunk 0 and returns on the others.\<close>

definition f_first_fails :: "unit chunk_callback" where
  "f_first_fails = (\<lambda>i d. if i = 0 then Some Thrown_other else None)"





text \<open>
  What holds of the calls in every state of a run when the counter cannot wrap around:
  worker \<open>it\<close> only touches ids congruent to \<open>it\<close> modulo the number of threads and
  below the count, and its calls are in increasing order, all below its counter.
\<close>

definition part_inv :: "'d cube \<Rightarrow> 16 word \<Rightarrow> apply_state \<Rightarrow> bool" where
  "part_inv c n st =
     (wf n st
      \<and> (\<forall>it<unat n.
            unat (loop_i st ! it) mod unat n = it
            \<and> (in_try st ! it \<longrightarrow> loop_i st ! it < count_chunks c)
            \<and> sorted_wrt (<) (map snd (filter (\<lambda>x. fst x = it) (calls st)))
            \<and> (\<forall>x\<in>set (map snd (filter (\<lambda>x. fst x = it) (calls st))). x < loop_i st ! it))
      \<and> (\<forall>p\<in>set (calls st).
            fst p < unat n \<and> snd p < count_chunks c \<and> unat (snd p) mod unat n = fst p))"

section \<open>Properties of the output functions\<close>

lemma all_text_print:
  "all_text (r_stderr_buf_print s me st) = console st @ s_buf st @ s @ err_stream st"
  by (simp add: r_stderr_buf_print_def all_text_def Let_def)

lemma all_text_flush: "all_text (flush_err_stream me st) = all_text st"
  by (simp add: flush_err_stream_def r_stderr_buf_print_def all_text_def Let_def)

lemma err_defer_flush: "err_defer (flush_err_stream me st) = err_defer st"
  by (simp add: flush_err_stream_def r_stderr_buf_print_def Let_def)

lemma err_stream_flush: "err_stream (flush_err_stream me st) = []"
  by (simp add: flush_err_stream_def r_stderr_buf_print_def Let_def)

subsection \<open>Who writes to the console, and in which order\<close>






lemma all_text_standard:
  "all_text (standard lvl msg loc error_code me st)
     = all_text st @ call_text (Standard lvl msg loc error_code)"
  by (cases lvl)
     (simp_all add: standard_def err_write_def Let_def all_text_flush, simp_all add: all_text_def)









text \<open>
  Claim C10. Under the standard handler a message of level \<^verbatim>\<open>ERRLVL_DEBUG\<close> is dropped:
  the handler writes nothing to \<^verbatim>\<open>_err_stream\<close>, its whole effect is the flush of what was
  buffered before (it does not depend on the message), and the text the state holds is
  what it held before. The debug handler appends the line
  \<^verbatim>\<open>[DEBUG] msg where_str\<close> and a line feed to that text.
\<close>

theorem standard_drops_debug_level:
  "standard ERRLVL_DEBUG msg loc error_code me st
     = (if err_defer st then st else flush_err_stream me st)
   \<and> all_text (standard ERRLVL_DEBUG msg loc error_code me st) = all_text st
   \<and> (if err_defer st
      then err_stream (standard ERRLVL_DEBUG msg loc error_code me st) = err_stream st
      else err_stream (standard ERRLVL_DEBUG msg loc error_code me st) = [])
   \<and> all_text (debug ERRLVL_DEBUG msg loc error_code me st)
     = all_text st @ ''[DEBUG] '' @ msg @ (if loc = [] then [] else '' [in '' @ loc @ '']'') @ endl"
  by (simp add: standard_def debug_def err_write_def Let_def all_text_flush err_stream_flush)
     (simp add: all_text_def)

section \<open>Properties of the progress bar\<close>

















section \<open>Properties of the chunk processor\<close>

subsection \<open>Steps\<close>

lemma process_chunk_fields [simp]:
  "interrupted (process_chunk c f it i st) = interrupted st"
  "finished (process_chunk c f it i st) = finished st"
  "interrupted_bythread (process_chunk c f it i st) = interrupted_bythread st"
  "loop_i (process_chunk c f it i st) = loop_i st"
  "in_try (process_chunk c f it i st) = in_try st"
  "polling (process_chunk c f it i st) = polling st"
  "sup_i (process_chunk c f it i st) = sup_i st"
  "skipped (process_chunk c f it i st) = skipped st"
  by (simp_all add: process_chunk_def gcbs_error_def Let_def split: sum.splits option.splits)

lemma worker_step_cases:
  assumes "it < unat n" "\<not> finished st ! it"
  obtains
    (chunk) "in_try st ! it"
      "worker_step c f n it st
         = (process_chunk c f it (loop_i st ! it) st)
             \<lparr>in_try := (in_try st)[it := False],
              loop_i := (loop_i st)[it := loop_i st ! it + ucast n]\<rparr>"
  | (enter) "\<not> in_try st ! it" "loop_i st ! it < count_chunks c" "\<not> interrupted st"
      "worker_step c f n it st = st\<lparr>in_try := (in_try st)[it := True]\<rparr>"
  | (skip) "\<not> in_try st ! it" "loop_i st ! it < count_chunks c" "interrupted st"
      "worker_step c f n it st
         = st\<lparr>interrupted_bythread := (interrupted_bythread st)[it := True],
               skipped := skipped st @ [(it, loop_i st ! it)],
               loop_i := (loop_i st)[it := loop_i st ! it + ucast n]\<rparr>"
  | (finish) "\<not> in_try st ! it" "\<not> loop_i st ! it < count_chunks c"
      "worker_step c f n it st = st\<lparr>finished := (finished st)[it := True]\<rparr>"
  using assms by (cases "in_try st ! it"; cases "loop_i st ! it < count_chunks c"; cases "interrupted st")
    (simp_all add: worker_step_def Let_def)

lemma worker_step_idle:
  "\<not> it < unat n \<or> finished st ! it \<Longrightarrow> worker_step c f n it st = st"
  by (simp add: worker_step_def)

lemma supervisor_step_cases:
  obtains
    (idle) "supervisor_step ui n st = st"
  | (tick) "polling st" "supervisor_step ui n st = st\<lparr>sup_i := sup_i st + 1\<rparr>"
  | (interrupt) "polling st" "\<not> interrupted st \<or> True" "supervisor_step ui n st = st\<lparr>interrupted := True, polling := False\<rparr>"
  | (leave) "polling st" "list_all (\<lambda>it. finished st ! it) [0..<unat n]"
      "supervisor_step ui n st = st\<lparr>sup_i := sup_i st + 1, polling := False\<rparr>"
  by (cases "polling st"; cases "list_all (\<lambda>it. finished st ! it) [0..<unat n]";
      cases "interrupt_every \<le> sup_i st \<and> sup_i st mod interrupt_every = 0 \<and> ui")
     (simp_all add: supervisor_step_def Let_def)

lemma run_append: "run c f n (xs @ ys) st = run c f n ys (run c f n xs st)"
  by (induction xs arbitrary: st) simp_all

lemma wf_init: "wf n (apply_init n)"
  by (simp add: wf_def apply_init_def)

lemma wf_step: "wf n st \<Longrightarrow> wf n (step c f n ev st)"
proof (cases ev)
  case (Worker it)
  assume w: "wf n st"
  show ?thesis
  proof (cases "it < unat n \<and> \<not> finished st ! it")
    case True
    then have a: "it < unat n" and b: "\<not> finished st ! it" by simp_all
    show ?thesis unfolding Worker
      by (rule worker_step_cases [OF a b, of c f]) (use w in \<open>simp_all add: wf_def\<close>)
  next
    case False
    then show ?thesis using w unfolding Worker by (simp add: worker_step_idle)
  qed
next
  case (Supervisor ui)
  assume w: "wf n st"
  show ?thesis unfolding Supervisor
    by (rule supervisor_step_cases [of ui n st]) (use w in \<open>simp_all add: wf_def\<close>)
qed

lemma wf_run: "wf n st \<Longrightarrow> wf n (run c f n evs st)"
  by (induction evs arbitrary: st) (simp_all add: wf_step)

subsection \<open>The cancellation flag\<close>






subsection \<open>Termination\<close>

lemma unat_16_bound: "unat (n :: 16 word) < 65536"
  using unsigned_less [of n, where 'a = nat] by simp

lemma unat_ucast_16_32: "unat (ucast (n :: 16 word) :: 32 word) = unat n"
proof -
  have "unat n < 2 ^ 32" using unat_16_bound [of n] by simp
  then show ?thesis by (simp add: unsigned_ucast_eq take_bit_nat_eq_self)
qed

lemma unat_loop_add:
  "unat (i :: 32 word) + unat (n :: 16 word) < 2 ^ 32 \<Longrightarrow> unat (i + ucast n) = unat i + unat n"
  by (simp add: unat_add_lem [THEN iffD1] unat_ucast_16_32)













lemma finished_mono:
  "it < unat n \<Longrightarrow> wf n st \<Longrightarrow> finished st ! it \<Longrightarrow> finished (step c f n ev st) ! it"
proof (cases ev)
  case (Worker k)
  assume h: "it < unat n" "wf n st" "finished st ! it"
  show ?thesis
  proof (cases "k < unat n \<and> \<not> finished st ! k")
    case True
    then have a: "k < unat n" and b: "\<not> finished st ! k" by simp_all
    show ?thesis unfolding Worker step.simps
      by (rule worker_step_cases [OF a b, of c f])
         (use h a in \<open>auto simp: wf_def nth_list_update\<close>)
  next
    case False
    then show ?thesis using h unfolding Worker by (simp add: worker_step_idle)
  qed
next
  case (Supervisor ui)
  assume h: "it < unat n" "wf n st" "finished st ! it"
  show ?thesis unfolding Supervisor step.simps
    by (rule supervisor_step_cases [of ui n st]) (use h in simp_all)
qed


subsection \<open>After the flag is seen\<close>

lemma calls_process_chunk:
  "calls (process_chunk c f it i st)
     = calls st @ (case read_chunk c i of Inl e \<Rightarrow> [] | Inr d \<Rightarrow> [(it, i)])"
  by (simp add: process_chunk_def gcbs_error_def Let_def split: sum.splits option.splits)






subsection \<open>Evaluating schedules\<close>

lemma run_ticks:
  "polling st \<Longrightarrow> \<not> list_all (\<lambda>it. finished st ! it) [0..<unat n] \<Longrightarrow>
     run c f n (replicate k (Supervisor False)) st = st\<lparr>sup_i := sup_i st + k\<rparr>"
  by (induction k arbitrary: st) (simp_all add: supervisor_step_def Let_def)

lemmas run_eval = reach_def run_append run_ticks apply_init_def worker_step_def supervisor_step_def
  process_chunk_def gcbs_error_def Let_def interrupt_every_def interrupt_ms_def sleep_ms_def
  cube_ok_def f_ok_def


lemma reach_append: "reach c f n (evs @ evs') = run c f n evs' (reach c f n evs)"
  by (simp add: reach_def run_append)






subsection \<open>A failing chunk\<close>

lemma logged_process_chunk_fail:
  assumes "read_chunk c i = Inl e \<or> (\<exists>d. read_chunk c i = Inr d \<and> f i d = Some e)"
  shows "logged (process_chunk c f it i st) = logged st @ [catch_msg e i]"
  using assms by (auto simp: process_chunk_def gcbs_error_def Let_def)

lemma calls_two_steps:
  assumes "wf n st" "it < unat n" "\<not> finished st ! it" "\<not> in_try st ! it"
    "\<not> interrupted st" "loop_i st ! it < count_chunks c" "read_chunk c (loop_i st ! it) = Inr d"
  shows "calls (run c f n [Worker it, Worker it] st) = calls st @ [(it, loop_i st ! it)]"
  using assms by (simp add: worker_step_def wf_def Let_def calls_process_chunk)

text \<open>
  Claim C5, as amended. When \<^verbatim>\<open>read_chunk\<close> or the callback throws on chunk \<open>i\<close>, the
  worker's step records exactly one message: the thrown text itself for a
  \<^verbatim>\<open>std::string\<close>, and \<^verbatim>\<open>unexpected exception while processing chunk\<close> with the decimal
  chunk id for anything else. The flag, the supervising loop and the other vectors are
  untouched, the worker is back at the head of its loop with \<open>i + _nthreads\<close>, and when
  that value is below the count, the flag is not set and the chunk reads, its next two
  steps call the callback for it. Handed to the standard handler with level error, the
  message becomes the line \<^verbatim>\<open>[ERROR] message\<close> of the log text.
\<close>

theorem chunk_failure_is_logged_and_skipped_over:
  assumes "wf n st" "it < unat n" "\<not> finished st ! it" "in_try st ! it"
    and "i = loop_i st ! it"
    and "read_chunk c i = Inl e \<or> (\<exists>d. read_chunk c i = Inr d \<and> f i d = Some e)"
    and "st' = worker_step c f n it st"
  shows "logged st' = logged st @ [catch_msg e i]
    \<and> catch_msg (Thrown_string s) i = s
    \<and> catch_msg Thrown_other i
        = ''unexpected exception while processing chunk '' @ to_string_nat (unat i)
    \<and> interrupted st' = interrupted st \<and> polling st' = polling st
    \<and> finished st' = finished st \<and> interrupted_bythread st' = interrupted_bythread st
    \<and> skipped st' = skipped st
    \<and> \<not> in_try st' ! it \<and> loop_i st' ! it = i + ucast n
    \<and> (i + ucast n < count_chunks c \<and> \<not> interrupted st
         \<and> (\<exists>d. read_chunk c (i + ucast n) = Inr d) \<longrightarrow>
           calls (run c f n [Worker it, Worker it] st') = calls st' @ [(it, i + ucast n)])
    \<and> all_text (standard ERRLVL_ERROR (catch_msg e i) loc error_code me rs)
        = all_text rs @ ''[ERROR] '' @ catch_msg e i @ endl"
proof -
  have h: "all_text (standard ERRLVL_ERROR (catch_msg e i) loc error_code me rs)
        = all_text rs @ ''[ERROR] '' @ catch_msg e i @ endl"
    by (simp add: all_text_standard)
  have e: "st' = (process_chunk c f it i st)
             \<lparr>in_try := (in_try st)[it := False], loop_i := (loop_i st)[it := i + ucast n]\<rparr>"
    using assms by (simp add: worker_step_def Let_def)
  have w': "wf n st'" using assms(1) by (simp add: e wf_def)
  have a: "logged st' = logged st @ [catch_msg e i]"
    using logged_process_chunk_fail [of c i e f it st] assms(6) by (simp add: e)
  have b: "\<not> in_try st' ! it \<and> loop_i st' ! it = i + ucast n \<and> \<not> finished st' ! it
           \<and> interrupted st' = interrupted st"
    using assms(1,2,3) by (simp add: e wf_def)
  have "calls (run c f n [Worker it, Worker it] st') = calls st' @ [(it, i + ucast n)]"
    if "i + ucast n < count_chunks c" "\<not> interrupted st" "read_chunk c (i + ucast n) = Inr d" for d
    using calls_two_steps [OF w' assms(2), of c d f] b that by simp
  with a b h show ?thesis by (auto simp: e catch_msg_def)
qed

text \<open>
  One worker, two chunks, the callback fails on chunk 0: the message names chunk 0 and
  the callback is then called for chunk 1.
\<close>

theorem chunk_failure_is_logged_witness:
  "logged (reach (cube_ok 2) f_first_fails 1 [Worker 0, Worker 0])
     = [''unexpected exception while processing chunk 0'']
   \<and> calls (reach (cube_ok 2) f_first_fails 1 [Worker 0, Worker 0, Worker 0, Worker 0])
     = [(0, 0), (0, 1)]"
  using chunk_failure_is_logged_and_skipped_over
    [of 1 "reach (cube_ok 2) f_first_fails 1 [Worker 0]" 0 0 "cube_ok 2" Thrown_other
        f_first_fails "reach (cube_ok 2) f_first_fails 1 [Worker 0, Worker 0]" "''''"]
  by (simp add: run_eval f_first_fails_def wf_def catch_msg_def to_string_nat.simps digit_char_def)

text \<open>
  The claim as stated fails for a thrown \<^verbatim>\<open>std::string\<close>: the recorded message is the
  thrown text, here \<^verbatim>\<open>boom\<close> for chunk 0, and the chunk id is no part of it.
\<close>

theorem string_failure_message_lacks_chunk_id:
  "logged (reach (cube_ok 1) f_boom 1 [Worker 0, Worker 0]) = [''boom'']
   \<and> \<not> (\<exists>pre post. ''boom'' = pre @ to_string_nat (unat (0 :: chunkid_t)) @ post)"
proof -
  have "logged (reach (cube_ok 1) f_boom 1 [Worker 0, Worker 0]) = [''boom'']"
    by (simp add: run_eval f_boom_def catch_msg_def)
  moreover have "\<not> (\<exists>pre post. ''boom'' = pre @ to_string_nat (unat (0 :: chunkid_t)) @ post)"
  proof
    assume "\<exists>pre post. ''boom'' = pre @ to_string_nat (unat (0 :: chunkid_t)) @ post"
    then obtain pre post where "''boom'' = pre @ ''0'' @ post"
      by (auto simp: to_string_nat.simps digit_char_def)
    then have "CHR ''0'' \<in> set ''boom''" by (metis append_Cons in_set_conv_decomp)
    then show False by simp
  qed
  ultimately show ?thesis by simp
qed

subsection \<open>Runs without cancellation and without failures\<close>

lemma unat_of_nat_32: "k < 2 ^ 32 \<Longrightarrow> unat (of_nat k :: 32 word) = k"
  by (simp add: unat_of_nat)













lemma upt_3: "[0..<3] = [0, 1, 2]"
  by (simp add: numeral_3_eq_3 upt_rec)

lemma replicate_3: "replicate 3 x = [x, x, x]"
  by (simp add: numeral_3_eq_3)



subsection \<open>One worker running alone\<close>

lemma two_steps:
  assumes "wf n st" "it < unat n" "\<not> finished st ! it" "\<not> in_try st ! it"
    "\<not> interrupted st" "loop_i st ! it < count_chunks c" "read_chunk c (loop_i st ! it) = Inr d"
  shows "calls (run c f n [Worker it, Worker it] st) = calls st @ [(it, loop_i st ! it)]
    \<and> loop_i (run c f n [Worker it, Worker it] st) ! it = loop_i st ! it + ucast n
    \<and> \<not> finished (run c f n [Worker it, Worker it] st) ! it
    \<and> \<not> in_try (run c f n [Worker it, Worker it] st) ! it
    \<and> \<not> interrupted (run c f n [Worker it, Worker it] st)
    \<and> wf n (run c f n [Worker it, Worker it] st)"
  using assms by (simp add: worker_step_def wf_def Let_def calls_process_chunk)

lemma solo_iterations:
  assumes "wf n st" "it < unat n" "\<not> finished st ! it" "\<not> in_try st ! it" "\<not> interrupted st"
    and ok: "\<And>i. \<exists>d. read_chunk c i = Inr d"
  shows "\<forall>j<m. loop_i st ! it + of_nat j * ucast n < count_chunks c \<Longrightarrow>
     calls (run c f n (replicate (2 * m) (Worker it)) st)
       = calls st @ map (\<lambda>j. (it, loop_i st ! it + of_nat j * ucast n)) [0..<m]
     \<and> loop_i (run c f n (replicate (2 * m) (Worker it)) st) ! it
         = loop_i st ! it + of_nat m * ucast n
     \<and> \<not> finished (run c f n (replicate (2 * m) (Worker it)) st) ! it
     \<and> \<not> in_try (run c f n (replicate (2 * m) (Worker it)) st) ! it
     \<and> \<not> interrupted (run c f n (replicate (2 * m) (Worker it)) st)
     \<and> wf n (run c f n (replicate (2 * m) (Worker it)) st)"
proof (induction m)
  case 0
  with assms show ?case by simp
next
  case (Suc m)
  let ?s = "run c f n (replicate (2 * m) (Worker it)) st"
  from Suc have ih: "calls ?s = calls st @ map (\<lambda>j. (it, loop_i st ! it + of_nat j * ucast n)) [0..<m]"
    "loop_i ?s ! it = loop_i st ! it + of_nat m * ucast n"
    "\<not> finished ?s ! it" "\<not> in_try ?s ! it" "\<not> interrupted ?s" "wf n ?s"
    by simp_all
  from Suc.prems have lt: "loop_i ?s ! it < count_chunks c" by (simp add: ih(2))
  from ok obtain d where d: "read_chunk c (loop_i ?s ! it) = Inr d" by blast
  have r: "run c f n (replicate (2 * Suc m) (Worker it)) st = run c f n [Worker it, Worker it] ?s"
  proof -
    have "2 * Suc m = 2 * m + 2" by simp
    then have "replicate (2 * Suc m) (Worker it)
                 = replicate (2 * m) (Worker it) @ replicate 2 (Worker it)"
      by (simp only: replicate_add)
    also have "replicate 2 (Worker it) = [Worker it, Worker it]"
      by (simp add: numeral_2_eq_2)
    finally show ?thesis by (simp only: run_append)
  qed
  from two_steps [OF ih(6) assms(2) ih(3) ih(4) ih(5) lt d, of f]
  have t: "calls (run c f n [Worker it, Worker it] ?s) = calls ?s @ [(it, loop_i ?s ! it)]"
    "loop_i (run c f n [Worker it, Worker it] ?s) ! it = loop_i ?s ! it + ucast n"
    "\<not> finished (run c f n [Worker it, Worker it] ?s) ! it"
    "\<not> in_try (run c f n [Worker it, Worker it] ?s) ! it"
    "\<not> interrupted (run c f n [Worker it, Worker it] ?s)"
    "wf n (run c f n [Worker it, Worker it] ?s)"
    by blast+
  have c: "calls (run c f n [Worker it, Worker it] ?s)
             = calls st @ map (\<lambda>j. (it, loop_i st ! it + of_nat j * ucast n)) [0..<Suc m]"
    unfolding t(1) ih(1) ih(2) by simp
  have l: "loop_i (run c f n [Worker it, Worker it] ?s) ! it
             = loop_i st ! it + of_nat (Suc m) * ucast n"
    unfolding t(2) ih(2) by (simp add: distrib_right)
  from c l t(3-6) show ?case unfolding r by blast
qed

lemma upt_2: "[0..<2] = [0, 1]"
  by (simp add: numeral_2_eq_2 upt_rec)

lemma replicate_2: "replicate 2 x = [x, x]"
  by (simp add: numeral_2_eq_2)

lemma below_wrap_3:
  "j < 1431655766 \<Longrightarrow> (1 :: 32 word) + of_nat j * 3 < 4294967295"
proof -
  assume j: "j < 1431655766"
  have "unat ((1 :: 32 word) + of_nat j * 3) = (1 + j * 3) mod 4294967296"
    by (simp add: unat_word_ariths unat_of_nat mod_simps)
  moreover from j have "(1 + j * 3) mod 4294967296 < 4294967295"
  proof (cases "j = 1431655765")
    case True
    then show ?thesis by simp
  next
    case False
    with j have "1 + j * 3 < 4294967295" by simp
    then show ?thesis by simp
  qed
  ultimately show ?thesis by (simp add: word_less_nat_alt)
qed

lemma below_wrap_2: "(of_nat j * 2 :: 32 word) < 4294967295"
proof -
  have "unat (of_nat j * 2 :: 32 word) = (j * 2) mod 4294967296"
    by (simp add: unat_word_ariths unat_of_nat mod_simps)
  moreover have "(j * 2) mod 4294967296 \<noteq> 4294967295"
  proof
    assume "(j * 2) mod 4294967296 = 4294967295"
    then have "((j * 2) mod 4294967296) mod 2 = 4294967295 mod 2" by simp
    then have "(j * 2) mod 2 = (1::nat)" by (simp add: mod_mod_cancel)
    then show False by simp
  qed
  moreover have "(j * 2) mod 4294967296 < 4294967296" by simp
  ultimately show ?thesis by (simp add: word_less_nat_alt)
qed

lemma ucast_2_3: "(ucast (2 :: 16 word) :: 32 word) = 2" "(ucast (3 :: 16 word) :: 32 word) = 3"
  by simp_all

text \<open>
  Claim C1 at a chunk count where the counter wraps: 4294967295 chunks, three threads.
  Worker 0 starts with chunk 0. Worker 1 visits 1, 4, ..., 4294967293; its next value
  4294967296 is 0 in 32 bits, which is below the count, so it processes chunk 0 as well:
  chunk 0 belongs to the loops of two workers.
\<close>

theorem wrap_around_chunk_in_two_partitions:
  "calls (reach (cube_ok 4294967295) f_ok 3
            ([Worker 0, Worker 0] @ replicate (2 * 1431655766) (Worker 1)))
     = (0, 0) # map (\<lambda>j. (1, 1 + of_nat j * 3)) [0..<1431655766]
   \<and> (0, 0) \<in> set (calls (reach (cube_ok 4294967295) f_ok 3
            ([Worker 0, Worker 0] @ replicate (2 * 1431655766) (Worker 1))))
   \<and> (1, 0) \<in> set (calls (reach (cube_ok 4294967295) f_ok 3
            ([Worker 0, Worker 0] @ replicate (2 * 1431655766) (Worker 1))))"
proof -
  let ?c = "cube_ok 4294967295"
  let ?s = "reach ?c f_ok 3 [Worker 0, Worker 0]"
  have s: "?s = \<lparr>interrupted = False, finished = [False, False, False],
          interrupted_bythread = [False, False, False],
          loop_i = [3, 1, 2], in_try = [False, False, False], polling = True, sup_i = 0,
          calls = [(0, 0)], skipped = [], logged = []\<rparr>"
    by (simp add: run_eval upt_3 replicate_3)
  have below: "\<forall>j<1431655766. loop_i ?s ! 1 + of_nat j * ucast (3 :: 16 word) < count_chunks ?c"
    unfolding s by (simp add: cube_ok_def below_wrap_3)
  have ok: "\<And>i. \<exists>d. read_chunk ?c i = Inr d" by (simp add: cube_ok_def)
  have "calls (run ?c f_ok 3 (replicate (2 * 1431655766) (Worker 1)) ?s)
          = calls ?s @ map (\<lambda>j. (1, loop_i ?s ! 1 + of_nat j * ucast (3 :: 16 word))) [0..<1431655766]"
    using solo_iterations [of 3 ?s 1 ?c 1431655766 f_ok, OF _ _ _ _ _ ok below]
    by (simp add: s wf_def)
  then have c: "calls (reach ?c f_ok 3 ([Worker 0, Worker 0] @ replicate (2 * 1431655766) (Worker 1)))
          = (0, 0) # map (\<lambda>j. (1, 1 + of_nat j * 3)) [0..<1431655766]"
    unfolding reach_append by (simp add: s)
  have "(1, 0) = (\<lambda>j. (1 :: nat, 1 + of_nat j * 3 :: 32 word)) 1431655765" by simp
  moreover have "(1431655765 :: nat) \<in> set [0..<1431655766]" by simp
  ultimately have "(1, 0) \<in> (\<lambda>j. (1 :: nat, 1 + of_nat j * 3 :: 32 word)) ` set [0..<1431655766]"
    by (rule image_eqI)
  with c show ?thesis by simp
qed

text \<open>
  Claim C8 at a chunk count where the counter wraps: 4294967295 chunks, two threads,
  worker 0 running alone. Its call number 2147483648 is for chunk 4294967294 and the
  next one is for chunk 0: the ids of one worker do not increase.
\<close>

theorem wrap_around_breaks_order:
  "calls (reach (cube_ok 4294967295) f_ok 2 (replicate (2 * 2147483649) (Worker 0)))
     = map (\<lambda>j. (0, of_nat j * 2)) [0..<2147483649]
   \<and> calls (reach (cube_ok 4294967295) f_ok 2 (replicate (2 * 2147483649) (Worker 0)))
       ! 2147483647 = (0, 4294967294)
   \<and> calls (reach (cube_ok 4294967295) f_ok 2 (replicate (2 * 2147483649) (Worker 0)))
       ! 2147483648 = (0, 0)"
proof -
  let ?c = "cube_ok 4294967295"
  let ?s = "apply_init 2"
  have s: "?s = \<lparr>interrupted = False, finished = [False, False],
          interrupted_bythread = [False, False],
          loop_i = [0, 1], in_try = [False, False], polling = True, sup_i = 0,
          calls = [], skipped = [], logged = []\<rparr>"
    by (simp add: apply_init_def upt_2 replicate_2)
  have below: "\<forall>j<2147483649. loop_i ?s ! 0 + of_nat j * ucast (2 :: 16 word) < count_chunks ?c"
    unfolding s by (simp add: cube_ok_def below_wrap_2)
  have ok: "\<And>i. \<exists>d. read_chunk ?c i = Inr d" by (simp add: cube_ok_def)
  have "calls (run ?c f_ok 2 (replicate (2 * 2147483649) (Worker 0)) ?s)
          = calls ?s @ map (\<lambda>j. (0, loop_i ?s ! 0 + of_nat j * ucast (2 :: 16 word))) [0..<2147483649]"
    using solo_iterations [of 2 ?s 0 ?c 2147483649 f_ok, OF _ _ _ _ _ ok below]
    by (simp add: s wf_def)
  then have c: "calls (reach ?c f_ok 2 (replicate (2 * 2147483649) (Worker 0)))
          = map (\<lambda>j. (0, of_nat j * 2)) [0..<2147483649]"
    unfolding reach_def by (simp add: s)
  show ?thesis unfolding c by simp
qed

subsection \<open>The partition when the counter cannot wrap around\<close>

lemma part_inv_init: "part_inv c n (apply_init n)"
proof -
  have "unat (of_nat it :: 32 word) mod unat n = it" if "it < unat n" for it
  proof -
    from that unat_16_bound [of n] have "it < 2 ^ 32" by simp
    then have "unat (of_nat it :: 32 word) = it" by (rule unat_of_nat_32)
    with that show ?thesis by simp
  qed
  then show ?thesis by (simp add: part_inv_def wf_init) (simp add: apply_init_def)
qed

lemma part_inv_step:
  assumes nw: "no_wrap c n" and inv: "part_inv c n st"
  shows "part_inv c n (step c f n ev st)"
proof (cases ev)
  case (Supervisor ui)
  show ?thesis unfolding Supervisor step.simps
    by (rule supervisor_step_cases [of ui n st]) (use inv in \<open>simp_all add: part_inv_def wf_def\<close>)
next
  case (Worker k)
  show ?thesis
  proof (cases "k < unat n \<and> \<not> finished st ! k")
    case False
    then show ?thesis using inv unfolding Worker by (simp add: worker_step_idle)
  next
    case True
    then have a: "k < unat n" and b: "\<not> finished st ! k" by simp_all
    from inv have w: "wf n st" by (simp add: part_inv_def)
    from nw have nb: "unat (count_chunks c) + unat n \<le> 2 ^ 32" and n0: "0 < unat n"
      by (simp_all add: no_wrap_def)
    have next_i: "unat (loop_i st ! k + ucast n) = unat (loop_i st ! k) + unat n"
      if "loop_i st ! k < count_chunks c"
    proof -
      from that nb have "unat (loop_i st ! k) + unat n < 2 ^ 32"
        by (simp add: word_less_nat_alt)
      then show ?thesis by (rule unat_loop_add)
    qed
    have grow: "x < loop_i st ! k + ucast n"
      if "loop_i st ! k < count_chunks c" "x < loop_i st ! k \<or> x = loop_i st ! k" for x
      using that next_i n0 by (auto simp: word_less_nat_alt)
    have md: "unat (loop_i st ! k + ucast n) mod unat n = k" if "loop_i st ! k < count_chunks c"
      using next_i [OF that] inv a by (simp add: part_inv_def)
    show ?thesis unfolding Worker step.simps
    proof (rule worker_step_cases [OF a b, of c f])
      assume it: "in_try st ! k" and e: "worker_step c f n k st
         = (process_chunk c f k (loop_i st ! k) st)
             \<lparr>in_try := (in_try st)[k := False],
              loop_i := (loop_i st)[k := loop_i st ! k + ucast n]\<rparr>"
      from inv a it have lt: "loop_i st ! k < count_chunks c" by (simp add: part_inv_def)
      show "part_inv c n (worker_step c f n k st)"
        unfolding e part_inv_def
        using inv w a lt md [OF lt] grow [OF lt]
        by (auto simp: part_inv_def wf_def nth_list_update calls_process_chunk sorted_wrt_append
            split: sum.splits)
    next
      assume h: "\<not> in_try st ! k" "loop_i st ! k < count_chunks c" "\<not> interrupted st"
        and e: "worker_step c f n k st = st\<lparr>in_try := (in_try st)[k := True]\<rparr>"
      show "part_inv c n (worker_step c f n k st)"
        unfolding e part_inv_def using inv w a h
        by (auto simp: part_inv_def wf_def nth_list_update)
    next
      assume h: "\<not> in_try st ! k" "loop_i st ! k < count_chunks c" "interrupted st"
        and e: "worker_step c f n k st
         = st\<lparr>interrupted_bythread := (interrupted_bythread st)[k := True],
               skipped := skipped st @ [(k, loop_i st ! k)],
               loop_i := (loop_i st)[k := loop_i st ! k + ucast n]\<rparr>"
      show "part_inv c n (worker_step c f n k st)"
        unfolding e part_inv_def using inv w a h md [OF h(2)] grow [OF h(2)]
        by (auto simp: part_inv_def wf_def nth_list_update)
    next
      assume h: "\<not> in_try st ! k" "\<not> loop_i st ! k < count_chunks c"
        and e: "worker_step c f n k st = st\<lparr>finished := (finished st)[k := True]\<rparr>"
      show "part_inv c n (worker_step c f n k st)"
        unfolding e part_inv_def using inv w a h
        by (auto simp: part_inv_def wf_def nth_list_update)
    qed
  qed
qed

lemma part_inv_run: "no_wrap c n \<Longrightarrow> part_inv c n st \<Longrightarrow> part_inv c n (run c f n evs st)"
  by (induction evs arbitrary: st) (simp_all add: part_inv_step)

text \<open>
  For chunk counts with count plus threads within 32 bits, on every schedule, with
  or without cancellation and failures: a call by worker \<open>it\<close> is for a chunk below the
  count in the residue class of \<open>it\<close>, so no chunk is called by two workers, and the
  calls of one worker are in strictly increasing order.
\<close>

lemma partition_when_no_wrap:
  assumes "no_wrap c n"
  shows "(it, x) \<in> set (calls (reach c f n evs)) \<Longrightarrow>
           it < unat n \<and> x < count_chunks c \<and> unat x mod unat n = it"
    and "(it, x) \<in> set (calls (reach c f n evs)) \<Longrightarrow> (it', x) \<in> set (calls (reach c f n evs))
           \<Longrightarrow> it' = it"
    and "it < unat n \<Longrightarrow>
           sorted_wrt (<) (map snd (filter (\<lambda>x. fst x = it) (calls (reach c f n evs))))"
proof -
  have p: "part_inv c n (reach c f n evs)"
    unfolding reach_def by (rule part_inv_run [OF assms part_inv_init])
  show a: "it < unat n \<and> x < count_chunks c \<and> unat x mod unat n = it"
    if "(it, x) \<in> set (calls (reach c f n evs))" for it x
    using p that by (force simp: part_inv_def)
  show "it' = it" if "(it, x) \<in> set (calls (reach c f n evs))"
    "(it', x) \<in> set (calls (reach c f n evs))"
    using a [OF that(1)] a [OF that(2)] by simp
  show "sorted_wrt (<) (map snd (filter (\<lambda>x. fst x = it) (calls (reach c f n evs))))"
    if "it < unat n"
    using p that by (simp add: part_inv_def)
qed

subsection \<open>A run that never ends\<close>

lemma wrap_never_finishes_step:
  assumes "wf 2 st" "\<not> finished st ! 0" "even (unat (loop_i st ! 0))"
  shows "wf 2 (step (cube_ok 4294967295) f 2 ev st)
         \<and> \<not> finished (step (cube_ok 4294967295) f 2 ev st) ! 0
         \<and> even (unat (loop_i (step (cube_ok 4294967295) f 2 ev st) ! 0))"
proof -
  have ev2: "even (unat (w + 2))" if "even (unat w)" for w :: "32 word"
  proof -
    have "unat (w + 2) = (unat w + 2) mod 4294967296" by (simp add: unat_word_ariths)
    moreover have "even ((unat w + 2) mod 4294967296)" using that
      by (simp add: dvd_mod_iff)
    ultimately show ?thesis by simp
  qed
  have lt: "w < 4294967295" if "even (unat w)" for w :: "32 word"
  proof -
    have "unat w < 4294967296" using unsigned_less [of w, where 'a = nat] by simp
    moreover from that have "unat w \<noteq> 4294967295" by auto
    ultimately show ?thesis by (simp add: word_less_nat_alt)
  qed
  have w': "wf 2 (step (cube_ok 4294967295) f 2 ev st)" by (rule wf_step [OF assms(1)])
  have "\<not> finished (step (cube_ok 4294967295) f 2 ev st) ! 0
         \<and> even (unat (loop_i (step (cube_ok 4294967295) f 2 ev st) ! 0))"
  proof (cases ev)
    case (Supervisor ui)
    show ?thesis unfolding Supervisor step.simps
      by (rule supervisor_step_cases [of ui 2 st]) (use assms in simp_all)
  next
    case (Worker k)
    show ?thesis
    proof (cases "k < unat (2 :: 16 word) \<and> \<not> finished st ! k")
      case False
      then show ?thesis using assms unfolding Worker by (simp add: worker_step_idle)
    next
      case True
      then have a: "k < unat (2 :: 16 word)" and b: "\<not> finished st ! k" by simp_all
      have lk: "\<not> loop_i st ! k < 4294967295 \<Longrightarrow> 0 < k" using lt [OF assms(3)] by (cases k) auto
      show ?thesis unfolding Worker step.simps
        by (rule worker_step_cases [OF a b, of "cube_ok 4294967295" f])
           (use assms a ev2 [OF assms(3)] lk in
             \<open>auto simp: wf_def nth_list_update cube_ok_def\<close>)
    qed
  qed
  with w' show ?thesis by simp
qed

text \<open>
  With 4294967295 chunks and two threads worker 0 never leaves its loop: its counter
  stays even, so it is never 4294967295 or more. No schedule makes \<^verbatim>\<open>apply\<close> return.
\<close>

lemma wrap_never_returns: "apply_cube (cube_ok 4294967295) f 2 evs = None"
proof -
  have "wf 2 st \<Longrightarrow> \<not> finished st ! 0 \<Longrightarrow> even (unat (loop_i st ! 0)) \<Longrightarrow>
          \<not> finished (run (cube_ok 4294967295) f 2 evs st) ! 0" for st
  proof (induction evs arbitrary: st)
    case Nil
    then show ?case by simp
  next
    case (Cons ev evs)
    from wrap_never_finishes_step [OF Cons.prems, of f ev] Cons.IH show ?case by simp
  qed
  from this [of "apply_init 2"] have "\<not> finished (run (cube_ok 4294967295) f 2 evs (apply_init 2)) ! 0"
    by (simp add: wf_init) (simp add: apply_init_def upt_2 replicate_2)
  then show ?thesis by (simp add: apply_cube_def returned_def upt_2)
qed

end
